theory Spec2Isabelle
  imports Complex_Main "HOL-Library.Log_Nat" "HOL-Library.Product_Lexorder"
begin

section \<open>Python floats\<close>

text \<open>
  The scheduler stores every time of day as a Python \<^verbatim>\<open>float\<close>, an IEEE 754 binary64
  number. A finite binary64 number is a rational, so the model keeps such a value as a
  \<^typ>\<open>rat\<close>; comparisons of floats are then the comparisons of \<^typ>\<open>rat\<close>. Every arithmetic
  operation of the source computes the exact result and rounds it to the nearest binary64
  number, ties to the even significand; \<open>round_double\<close> is that rounding.

  A nonzero rational \<open>x\<close> with \<open>2 ^ k \<le> \<bar>x\<bar> < 2 ^ (k + 1)\<close> is rounded on the grid of
  multiples of \<open>2 ^ (k - 52)\<close> (53 significant bits). The exponent range of binary64 is not
  modelled: all values of this program are 0 or lie between \<open>1 / 64\<close> and \<open>1440\<close>, far
  from both the subnormal numbers and the overflow threshold.
\<close>

definition ilog2 :: "rat \<Rightarrow> int" where
  \<comment> \<open>\<open>\<lfloor>log\<^sub>2 x\<rfloor>\<close> for \<open>x > 0\<close>\<close>
  "ilog2 x = (if 1 \<le> x then bitlen \<lfloor>x\<rfloor> - 1 else - bitlen (\<lceil>1 / x\<rceil> - 1))"

definition round_half_even :: "rat \<Rightarrow> int" where
  "round_half_even m =
     (let f = \<lfloor>m\<rfloor>; d = m - of_int f
      in if d < 1 / 2 then f
         else if 1 / 2 < d then f + 1
         else if even f then f else f + 1)"

definition round_double :: "rat \<Rightarrow> rat" where
  "round_double x =
     (if x = 0 then 0
      else let e = ilog2 \<bar>x\<bar> - 52
           in sgn x * of_int (round_half_even (\<bar>x\<bar> / 2 powi e)) * 2 powi e)"

text \<open>The float operations the source uses; an \<^verbatim>\<open>int\<close> operand is converted exactly.\<close>

definition int_truediv :: "int \<Rightarrow> int \<Rightarrow> rat" where
  \<comment> \<open>\<^verbatim>\<open>a / b\<close> on two ints with \<open>b \<noteq> 0\<close>: the correctly rounded quotient\<close>
  "int_truediv a b = round_double (of_int a / of_int b)"

definition float_add :: "rat \<Rightarrow> rat \<Rightarrow> rat" where
  "float_add x y = round_double (x + y)"

definition float_sub :: "rat \<Rightarrow> rat \<Rightarrow> rat" where
  "float_sub x y = round_double (x - y)"

definition float_mul :: "rat \<Rightarrow> rat \<Rightarrow> rat" where
  "float_mul x y = round_double (x * y)"

definition float_to_int :: "rat \<Rightarrow> int" where
  \<comment> \<open>\<^verbatim>\<open>int(x)\<close> truncates towards zero\<close>
  "float_to_int x = (if 0 \<le> x then \<lfloor>x\<rfloor> else \<lceil>x\<rceil>)"

section \<open>Time parsing\<close>

text \<open>
  Strings are lists of \<^typ>\<open>char\<close>, that is of code points below 256. In that range the
  class \<^verbatim>\<open>\d\<close> of Python's \<^verbatim>\<open>re\<close> holds exactly the ASCII digits.
\<close>

text \<open>
  The source reports a failure by raising \<^verbatim>\<open>ValueError\<close> (\<open>parse_time\<close>,
  \<^verbatim>\<open>list.index\<close>) or by showing a message box and returning (\<open>add_class\<close>). The
  model returns the failure as a value: \<open>FormatError\<close> is the \<^verbatim>\<open>ValueError\<close> of
  \<open>parse_time\<close> ("Time must be in HH:MM 24-hour format"), \<open>EmptyName\<close>,
  \<open>StartNotBeforeEnd\<close> and \<open>NoDays\<close> are the three "Invalid Input" boxes of
  \<open>add_class\<close>, \<open>Conflict\<close> is its "Time Conflict" box with the name of the existing
  class and the shared days, and \<open>IndexValueError\<close> is the \<^verbatim>\<open>ValueError\<close> of
  \<^verbatim>\<open>DAYS.index\<close>.
\<close>

datatype error =
    FormatError
  | EmptyName
  | StartNotBeforeEnd
  | NoDays
  | Conflict string "string set"
  | IndexValueError

definition is_digit :: "char \<Rightarrow> bool" where
  "is_digit c = (c \<in> set ''0123456789'')"

definition at_end :: "string \<Rightarrow> bool" where
  \<comment> \<open>\<^verbatim>\<open>$\<close> without \<^verbatim>\<open>re.MULTILINE\<close>: the end of the string, or just before a
      newline that ends the string\<close>
  "at_end r = (r = [] \<or> r = [CHR 0x0A])"

definition match_minute :: "string \<Rightarrow> string option" where
  \<comment> \<open>the tail \<^verbatim>\<open>:([0-5]\d)$\<close> of the pattern; returns group 2\<close>
  "match_minute r =
     (case r of
        c # m1 # m2 # r' \<Rightarrow>
          if c = CHR '':'' \<and> m1 \<in> set ''012345'' \<and> is_digit m2 \<and> at_end r'
          then Some [m1, m2] else None
      | _ \<Rightarrow> None)"

definition match_hour_01d :: "string \<Rightarrow> (string \<times> string) option" where
  \<comment> \<open>first alternative \<^verbatim>\<open>[01]?\d\<close> with the optional \<^verbatim>\<open>[01]\<close> taken\<close>
  "match_hour_01d s =
     (case s of
        h1 # h2 # r \<Rightarrow>
          if h1 \<in> set ''01'' \<and> is_digit h2 then map_option (Pair [h1, h2]) (match_minute r)
          else None
      | _ \<Rightarrow> None)"

definition match_hour_d :: "string \<Rightarrow> (string \<times> string) option" where
  \<comment> \<open>first alternative \<^verbatim>\<open>[01]?\d\<close> with the optional \<^verbatim>\<open>[01]\<close> left out\<close>
  "match_hour_d s =
     (case s of
        h1 # r \<Rightarrow> if is_digit h1 then map_option (Pair [h1]) (match_minute r) else None
      | _ \<Rightarrow> None)"

definition match_hour_2d :: "string \<Rightarrow> (string \<times> string) option" where
  \<comment> \<open>second alternative \<^verbatim>\<open>2[0-3]\<close>\<close>
  "match_hour_2d s =
     (case s of
        h1 # h2 # r \<Rightarrow>
          if h1 = CHR ''2'' \<and> h2 \<in> set ''0123'' then map_option (Pair [h1, h2]) (match_minute r)
          else None
      | _ \<Rightarrow> None)"

definition match_time :: "string \<Rightarrow> (string \<times> string) option" where
  \<comment> \<open>\<^verbatim>\<open>re.match(r'^([01]?\d|2[0-3]):([0-5]\d)$', tstr)\<close>, in the order in which the
      backtracking matcher tries the alternatives; returns groups 1 and 2\<close>
  "match_time s =
     (case match_hour_01d s of
        Some g \<Rightarrow> Some g
      | None \<Rightarrow>
          (case match_hour_d s of
             Some g \<Rightarrow> Some g
           | None \<Rightarrow> match_hour_2d s))"

definition digit_val :: "char \<Rightarrow> int" where
  "digit_val c = int (of_char c) - 48"

definition int_of_digits :: "string \<Rightarrow> int" where
  \<comment> \<open>\<^verbatim>\<open>int(...)\<close> on a string of ASCII digits\<close>
  "int_of_digits ds = foldl (\<lambda>n c. 10 * n + digit_val c) 0 ds"

definition parse_time :: "string \<Rightarrow> error + rat" where
  "parse_time tstr =
     (case match_time tstr of
        None \<Rightarrow> Inl FormatError
      | Some (g1, g2) \<Rightarrow>
          let hour = int_of_digits g1;
              minute = int_of_digits g2
          in Inr (float_add (of_int hour) (int_truediv minute 60)))"

section \<open>The scheduler\<close>

definition DAYS :: "string list" where
  "DAYS = [''Mon'', ''Tue'', ''Wed'', ''Thu'', ''Fri'', ''Sat'', ''Sun'']"

definition times_overlap :: "rat \<Rightarrow> rat \<Rightarrow> rat \<Rightarrow> rat \<Rightarrow> bool" where
  "times_overlap start1 end1 start2 end2 = (\<not> (end1 \<le> start2 \<or> end2 \<le> start1))"

text \<open>A stored class is the dict \<^verbatim>\<open>{name, start, end, days}\<close>.\<close>

record class_entry =
  name :: string
  start :: rat
  end_time :: rat
  days :: "string list"

text \<open>
  The state of \<^verbatim>\<open>ClassSchedulerApp\<close>: the list \<^verbatim>\<open>self.classes\<close> and the contents of
  the widgets the two button handlers read and write. \<open>day_vars\<close> holds the values of the
  seven check boxes, one per element of \<open>DAYS\<close>, in that order.
\<close>

record app =
  classes :: "class_entry list"
  name_entry :: string
  start_entry :: string
  end_entry :: string
  day_vars :: "int list"
  class_listbox :: "string list"
  result_text :: string

definition init_app :: app where
  "init_app =
     \<lparr>classes = [], name_entry = [], start_entry = [], end_entry = [],
      day_vars = map (\<lambda>day. 0) DAYS, class_listbox = [], result_text = []\<rparr>"

subsection \<open>Formatting\<close>

definition is_space :: "char \<Rightarrow> bool" where
  \<comment> \<open>the code points below 256 for which \<^verbatim>\<open>str.isspace\<close> holds\<close>
  "is_space c =
     ((of_char c :: nat) \<in> {9, 10, 11, 12, 13, 28, 29, 30, 31, 32, 133, 160})"

definition strip :: "string \<Rightarrow> string" where
  "strip s = rev (dropWhile is_space (rev (dropWhile is_space s)))"

fun join :: "string \<Rightarrow> string list \<Rightarrow> string" where
  "join sep [] = []"
| "join sep [x] = x"
| "join sep (x # y # ys) = x @ sep @ join sep (y # ys)"

definition digit_char :: "nat \<Rightarrow> char" where
  "digit_char d = char_of (48 + d)"

fun dec_digits :: "nat \<Rightarrow> nat \<Rightarrow> string" where
  \<comment> \<open>the decimal digits of \<open>n\<close>; the first argument bounds their number\<close>
  "dec_digits 0 n = []"
| "dec_digits (Suc k) n =
     (if n < 10 then [digit_char n] else dec_digits k (n div 10) @ [digit_char (n mod 10)])"

definition str_int :: "int \<Rightarrow> string" where
  "str_int i =
     (if i < 0 then CHR ''-'' # dec_digits (Suc (nat (- i))) (nat (- i))
      else dec_digits (Suc (nat i)) (nat i))"

definition fmt_02d :: "int \<Rightarrow> string" where
  \<comment> \<open>\<^verbatim>\<open>f"{i:02d}"\<close>: padded with zeros after the sign to a width of at least 2\<close>
  "fmt_02d i = (if 0 \<le> i \<and> i < 10 then CHR ''0'' # str_int i else str_int i)"

definition format_time :: "rat \<Rightarrow> string" where
  \<comment> \<open>lines 112-117 and 142-147:
      \<^verbatim>\<open>hr = int(t); mn = int((t - hr) * 60); f"{hr:02d}:{mn:02d}"\<close>\<close>
  "format_time t =
     (let hr = float_to_int t;
          mn = float_to_int (float_mul (float_sub t (of_int hr)) 60)
      in fmt_02d hr @ '':'' @ fmt_02d mn)"

definition update_class_list :: "app \<Rightarrow> app" where
  "update_class_list a =
     a\<lparr>class_listbox :=
         map (\<lambda>c. name c @ '': '' @ format_time (start c) @ '' - '' @ format_time (end_time c)
                   @ '' on '' @ join '', '' (days c))
             (classes a)\<rparr>"

subsection \<open>Adding a class\<close>

definition selected_days :: "int list \<Rightarrow> string list" where
  \<comment> \<open>\<^verbatim>\<open>[DAYS[i] for i, var in enumerate(self.day_vars) if var.get() == 1]\<close>\<close>
  "selected_days vars =
     map (\<lambda>(i, var). DAYS ! i) (filter (\<lambda>(i, var). var = 1) (enumerate 0 vars))"

fun check_conflicts ::
  "string list \<Rightarrow> rat \<Rightarrow> rat \<Rightarrow> class_entry list \<Rightarrow> (string \<times> string set) option" where
  \<comment> \<open>the loop of lines 88-96; \<open>Some\<close> is its early return\<close>
  "check_conflicts ds s e [] = None"
| "check_conflicts ds s e (existing # rest) =
     (let shared_days = set ds \<inter> set (days existing)
      in if shared_days \<noteq> {} \<and> times_overlap s e (start existing) (end_time existing)
         then Some (name existing, shared_days)
         else check_conflicts ds s e rest)"

definition clear_inputs :: "app \<Rightarrow> app" where
  "clear_inputs a =
     a\<lparr>name_entry := [], start_entry := [], end_entry := [],
       day_vars := map (\<lambda>var. 0) (day_vars a)\<rparr>"

definition add_class :: "app \<Rightarrow> error option \<times> app" where
  \<comment> \<open>returns the message box shown, if any, and the state after the call\<close>
  "add_class a =
     (let nm = strip (name_entry a)
      in if nm = [] then (Some EmptyName, a)
         else
           (case parse_time (strip (start_entry a)) of
              Inl err \<Rightarrow> (Some err, a)
            | Inr s \<Rightarrow>
                (case parse_time (strip (end_entry a)) of
                   Inl err \<Rightarrow> (Some err, a)
                 | Inr e \<Rightarrow>
                     if s \<ge> e then (Some StartNotBeforeEnd, a)
                     else
                       (let ds = selected_days (day_vars a)
                        in if ds = [] then (Some NoDays, a)
                           else
                             (case check_conflicts ds s e (classes a) of
                                Some (other, shared_days) \<Rightarrow>
                                  (Some (Conflict other shared_days), a)
                              | None \<Rightarrow>
                                  (None,
                                   clear_inputs
                                     (update_class_list
                                        (a\<lparr>classes := classes a
                                             @ [\<lparr>name = nm, start = s, end_time = e,
                                                 days = ds\<rparr>]\<rparr>))))))))"

subsection \<open>Selecting non-overlapping classes\<close>

definition scan_step ::
  "string \<Rightarrow> (string \<times> class_entry) list \<times> rat \<Rightarrow> class_entry
     \<Rightarrow> (string \<times> class_entry) list \<times> rat" where
  \<comment> \<open>the body of the inner loop, lines 127-129, on the pair \<^verbatim>\<open>(selected, last_end)\<close>\<close>
  "scan_step day st c =
     (case st of (selected, last_end) \<Rightarrow>
        if start c \<ge> last_end then (selected @ [(day, c)], end_time c)
        else (selected, last_end))"

definition day_step ::
  "class_entry list \<Rightarrow> (string \<times> class_entry) list \<Rightarrow> string \<Rightarrow> (string \<times> class_entry) list" where
  \<comment> \<open>the body of the outer loop, lines 123-129\<close>
  "day_step cs selected day =
     (let day_classes = filter (\<lambda>c. day \<in> set (days c)) cs;
          day_classes = sort_key end_time day_classes;
          last_end = - 1
      in fst (foldl (scan_step day) (selected, last_end) day_classes))"

definition select_loop :: "class_entry list \<Rightarrow> (string \<times> class_entry) list" where
  \<comment> \<open>lines 121-129\<close>
  "select_loop cs = foldl (day_step cs) [] DAYS"

fun list_index :: "'a list \<Rightarrow> 'a \<Rightarrow> nat option" where
  \<comment> \<open>\<^verbatim>\<open>xs.index(x)\<close>; \<open>None\<close> is the \<^verbatim>\<open>ValueError\<close> for an absent element\<close>
  "list_index [] x = None"
| "list_index (y # ys) x = (if y = x then Some 0 else map_option Suc (list_index ys x))"

definition selected_key :: "string \<times> class_entry \<Rightarrow> nat \<times> rat" where
  \<comment> \<open>\<^verbatim>\<open>lambda x: (DAYS.index(x[0]), x[1]['start'])\<close> where the index exists; tuples
      are compared lexicographically\<close>
  "selected_key x = (the (list_index DAYS (fst x)), start (snd x))"

definition sort_selected ::
  "(string \<times> class_entry) list \<Rightarrow> error + (string \<times> class_entry) list" where
  \<comment> \<open>line 131: the stable sort of \<^verbatim>\<open>selected\<close>; it fails when a key cannot be computed\<close>
  "sort_selected selected =
     (if list_all (\<lambda>x. list_index DAYS (fst x) \<noteq> None) selected
      then Inr (sort_key selected_key selected)
      else Inl IndexValueError)"

definition select_nonoverlapping ::
  "class_entry list \<Rightarrow> error + (string \<times> class_entry) list" where
  \<comment> \<open>lines 121-131: the value of \<^verbatim>\<open>selected\<close> that the rest of the method displays\<close>
  "select_nonoverlapping cs = sort_selected (select_loop cs)"

fun render_selected :: "string option \<Rightarrow> (string \<times> class_entry) list \<Rightarrow> string" where
  \<comment> \<open>the loop of lines 138-148; the first argument is \<^verbatim>\<open>current_day\<close>\<close>
  "render_selected current_day [] = []"
| "render_selected current_day ((day, c) # rest) =
     (if Some day \<noteq> current_day then [CHR 0x0A] @ day @ '':'' @ [CHR 0x0A] else [])
     @ ''  '' @ name c @ '': '' @ format_time (start c) @ '' - '' @ format_time (end_time c)
     @ [CHR 0x0A]
     @ render_selected (Some day) rest"

definition select_classes :: "app \<Rightarrow> error option \<times> app" where
  \<comment> \<open>returns the exception raised, if any, and the state after the call\<close>
  "select_classes a =
     (case select_nonoverlapping (classes a) of
        Inl err \<Rightarrow> (Some err, a)
      | Inr selected \<Rightarrow>
          (None,
           a\<lparr>result_text :=
               (if selected = [] then ''No classes selected.''
                else render_selected None selected)\<rparr>))"

section \<open>The selection as the specification words it\<close>

text \<open>
  The specification describes the selection per day: filter the entries of the day, sort
  them by end time with a stable sort, scan them greedily from the sentinel \<open>- 1\<close>,
  concatenate the days in the order of \<open>DAYS\<close> and sort the result by day index and
  start time.
\<close>

fun spec_greedy :: "rat \<Rightarrow> class_entry list \<Rightarrow> class_entry list" where
  "spec_greedy lastEnd [] = []"
| "spec_greedy lastEnd (candidate # rest) =
     (if start candidate \<ge> lastEnd then candidate # spec_greedy (end_time candidate) rest
      else spec_greedy lastEnd rest)"

definition spec_day_sorted :: "class_entry list \<Rightarrow> string \<Rightarrow> class_entry list" where
  "spec_day_sorted cs d = sort_key end_time (filter (\<lambda>c. d \<in> set (days c)) cs)"

definition spec_day_chosen :: "class_entry list \<Rightarrow> string \<Rightarrow> class_entry list" where
  "spec_day_chosen cs d = spec_greedy (- 1) (spec_day_sorted cs d)"

definition spec_select :: "class_entry list \<Rightarrow> (string \<times> class_entry) list" where
  "spec_select cs =
     sort_key (\<lambda>(d, c). (the (list_index DAYS d), start c))
       (concat (map (\<lambda>d. map (Pair d) (spec_day_chosen cs d)) DAYS))"

definition overlap :: "class_entry \<Rightarrow> class_entry \<Rightarrow> bool" where
  \<comment> \<open>half-open overlap of \<open>[start, end)\<close>, as the glossary states it\<close>
  "overlap a b = (start a < end_time b \<and> start b < end_time a)"

definition valid_times :: "class_entry \<Rightarrow> bool" where
  \<comment> \<open>the data model's invariant on the two times of an entry\<close>
  "valid_times c = (0 \<le> start c \<and> start c < end_time c)"

definition compatible :: "class_entry set \<Rightarrow> bool" where
  \<comment> \<open>pairwise non-overlapping\<close>
  "compatible S = (\<forall>a\<in>S. \<forall>b\<in>S. a \<noteq> b \<longrightarrow> \<not> overlap a b)"

definition conflicts_with :: "string list \<Rightarrow> rat \<Rightarrow> rat \<Rightarrow> class_entry \<Rightarrow> bool" where
  \<comment> \<open>a candidate on the days \<open>ds\<close> from \<open>s\<close> to \<open>e\<close> shares a day with the entry \<open>x\<close>
      and their half-open intervals overlap\<close>
  "conflicts_with ds s e x = (set ds \<inter> set (days x) \<noteq> {} \<and> s < end_time x \<and> start x < e)"

definition time_value :: "int \<Rightarrow> int \<Rightarrow> rat" where
  \<comment> \<open>\<^verbatim>\<open>hour + minute / 60\<close> as line 18 computes it: the quotient is rounded, then the sum\<close>
  "time_value h m = float_add (of_int h) (int_truediv m 60)"

definition hhmm :: "string \<Rightarrow> string \<Rightarrow> bool" where
  \<comment> \<open>an hour of one or two digits in 0-23 and a minute of exactly two digits in 00-59\<close>
  "hhmm hs ms =
     ((length hs = 1 \<or> length hs = 2) \<and> list_all is_digit hs \<and> int_of_digits hs \<le> 23
      \<and> length ms = 2 \<and> list_all is_digit ms \<and> int_of_digits ms \<le> 59)"

definition conforms_hhmm :: "string \<Rightarrow> bool" where
  \<comment> \<open>the string is such an hour, a colon and such a minute, and nothing else\<close>
  "conforms_hhmm s =
     (\<exists>n\<in>{1, 2}. hhmm (take n s) (drop (Suc n) s) \<and> s = take n s @ '':'' @ drop (Suc n) s)"

definition is_time_of_day :: "rat \<Rightarrow> bool" where
  \<comment> \<open>a value in \<open>[0, 24)\<close> that \<open>parse_time\<close> returns for a conforming string\<close>
  "is_time_of_day t = (0 \<le> t \<and> t < 24 \<and> (\<exists>s. conforms_hhmm s \<and> parse_time s = Inr t))"

definition entry_ok :: "class_entry \<Rightarrow> bool" where
  \<comment> \<open>the data model's invariant on a stored class\<close>
  "entry_ok c =
     (name c \<noteq> [] \<and> start c < end_time c \<and> days c \<noteq> [] \<and> set (days c) \<subseteq> set DAYS
      \<and> is_time_of_day (start c) \<and> is_time_of_day (end_time c))"

definition app_inv :: "app \<Rightarrow> bool" where
  \<comment> \<open>one check box per day, and every stored class satisfies the invariant\<close>
  "app_inv a = (length (day_vars a) = length DAYS \<and> list_all entry_ok (classes a))"

section \<open>Example states\<close>

definition ex_math :: class_entry where
  "ex_math = \<lparr>name = ''Math'', start = 9, end_time = 10, days = [''Mon'', ''Wed'', ''Fri'']\<rparr>"

definition ex_physics_form :: app where
  \<comment> \<open>"Math" is stored; the form holds "Physics", Mon, 09:30 to 10:30\<close>
  "ex_physics_form =
     init_app\<lparr>classes := [ex_math], name_entry := ''Physics'', start_entry := ''09:30'',
       end_entry := ''10:30'', day_vars := [1, 0, 0, 0, 0, 0, 0]\<rparr>"

definition ex_math_form :: app where
  \<comment> \<open>nothing is stored; the form holds "Math", Mon Wed Fri, 09:00 to 10:00\<close>
  "ex_math_form =
     init_app\<lparr>name_entry := ''Math'', start_entry := ''09:00'', end_entry := ''10:00'',
       day_vars := [1, 0, 1, 0, 1, 0, 0]\<rparr>"

definition ex_physics :: class_entry where
  "ex_physics = \<lparr>name = ''Physics'', start = 10, end_time = 21 / 2, days = [''Mon'', ''Tue'']\<rparr>"

definition class_1 :: class_entry where
  "class_1 = \<lparr>name = ''class-1'', start = 9, end_time = 10, days = [''Mon'']\<rparr>"

definition class_2 :: class_entry where
  "class_2 = \<lparr>name = ''class-2'', start = 37 / 4, end_time = 21 / 2, days = [''Mon'']\<rparr>"

definition class_3 :: class_entry where
  "class_3 = \<lparr>name = ''class-3'', start = 10, end_time = 11, days = [''Mon'']\<rparr>"

section \<open>The loops of \<open>select_classes\<close> as list functions\<close>

lemma fst_foldl_scan_step:
  "fst (foldl (scan_step d) (sel, le) xs) = sel @ map (Pair d) (spec_greedy le xs)"
  by (induction xs arbitrary: sel le) (simp_all add: scan_step_def)

lemma day_step_spec: "day_step cs sel d = sel @ map (Pair d) (spec_day_chosen cs d)"
  by (simp add: day_step_def spec_day_chosen_def spec_day_sorted_def fst_foldl_scan_step)

lemma foldl_day_step:
  "foldl (day_step cs) sel ds = sel @ concat (map (\<lambda>d. map (Pair d) (spec_day_chosen cs d)) ds)"
  by (induction ds arbitrary: sel) (simp_all add: day_step_spec)

lemma select_loop_spec:
  "select_loop cs = concat (map (\<lambda>d. map (Pair d) (spec_day_chosen cs d)) DAYS)"
  by (simp add: select_loop_def foldl_day_step)

lemma list_index_Some: "x \<in> set xs \<Longrightarrow> list_index xs x \<noteq> None"
  by (induction xs) auto

lemma list_index_nth: "list_index xs x = Some i \<Longrightarrow> i < length xs \<and> xs ! i = x"
  by (induction xs arbitrary: i) (auto split: if_splits)

lemma select_loop_days: "x \<in> set (select_loop cs) \<Longrightarrow> fst x \<in> set DAYS"
  by (auto simp: select_loop_spec)

lemma selected_key_eq: "selected_key = (\<lambda>(d, c). (the (list_index DAYS d), start c))"
  by (auto simp: selected_key_def fun_eq_iff)

lemma select_nonoverlapping_eq:
  "select_nonoverlapping cs = Inr (sort_key selected_key (select_loop cs))"
  by (simp add: select_nonoverlapping_def sort_selected_def list_all_iff
      list_index_Some select_loop_days)

lemma select_nonoverlapping_spec: "select_nonoverlapping cs = Inr (spec_select cs)"
  by (simp add: select_nonoverlapping_eq spec_select_def select_loop_spec selected_key_eq)

lemma key_le_iff:
  "selected_key x \<le> selected_key y \<longleftrightarrow>
     fst (selected_key x) < fst (selected_key y)
     \<or> fst (selected_key x) = fst (selected_key y) \<and> start (snd x) \<le> start (snd y)"
  by (auto simp: selected_key_def)

lemma same_index_same_day:
  assumes "d \<in> set DAYS" "d' \<in> set DAYS"
    and "the (list_index DAYS d) = the (list_index DAYS d')"
  shows "d = d'"
proof -
  from assms(1) obtain i where i: "list_index DAYS d = Some i"
    using list_index_Some by fastforce
  from assms(2) obtain j where j: "list_index DAYS d' = Some j"
    using list_index_Some by fastforce
  from i j assms(3) have "i = j" by simp
  with list_index_nth [OF i] list_index_nth [OF j] show ?thesis by simp
qed

lemma check_conflicts_find:
  "check_conflicts ds s e cs =
     map_option (\<lambda>x. (name x, set ds \<inter> set (days x))) (find (conflicts_with ds s e) cs)"
  by (induction cs) (auto simp: conflicts_with_def times_overlap_def Let_def)

section \<open>Failed additions and selection leave the stored classes alone\<close>

text \<open>
  C4. \<open>add_class\<close> is atomic: whenever it fails, with any of its message boxes, the state
  after the call is the state before it; in particular the stored list of classes is the
  same list, with the same entries in the same order.
\<close>

theorem add_class_atomic:
  "add_class a = (Some err, a') \<Longrightarrow> a' = a \<and> classes a' = classes a"
  by (auto simp: add_class_def Let_def split: if_splits sum.splits option.splits)

theorem add_class_atomic_witness:
  "add_class ex_physics_form = (Some (Conflict ''Math'' {''Mon''}), ex_physics_form)
   \<and> classes ex_physics_form = [ex_math]"
proof -
  have failed: "add_class ex_physics_form = (Some (Conflict ''Math'' {''Mon''}), ex_physics_form)"
    by code_simp
  have "classes ex_physics_form = [ex_math]"
    by (simp add: ex_physics_form_def)
  with add_class_atomic [OF failed] failed show ?thesis
    by simp
qed

text \<open>
  C10. \<open>select_classes\<close> never changes the stored classes: after the call the list is the
  one before the call; the only field of the state that can differ is the result text.
\<close>

theorem select_classes_frame:
  "classes (snd (select_classes a)) = classes a
   \<and> snd (select_classes a) = a\<lparr>result_text := result_text (snd (select_classes a))\<rparr>"
  by (simp add: select_classes_def split: sum.splits)

section \<open>Conflicts\<close>

text \<open>
  C2. For a candidate that passes the checks of the name, of the two times, of
  \<open>start < end\<close> and of the days, \<open>add_class\<close> reports a conflict if and only if some
  stored class shares a day with the candidate and overlaps it as a half-open interval;
  the conflict reported is the first such class in insertion order, with the set of
  shared days. Without such a class the call succeeds.
\<close>

theorem add_class_conflict:
  assumes "strip (name_entry a) \<noteq> []"
    and "parse_time (strip (start_entry a)) = Inr s"
    and "parse_time (strip (end_entry a)) = Inr e"
    and "s < e"
    and "selected_days (day_vars a) = ds"
    and "ds \<noteq> []"
  shows "((\<exists>other shared. fst (add_class a) = Some (Conflict other shared))
           \<longleftrightarrow> (\<exists>x \<in> set (classes a). conflicts_with ds s e x))
    \<and> fst (add_class a) =
        (case find (conflicts_with ds s e) (classes a) of
           None \<Rightarrow> None
         | Some x \<Rightarrow> Some (Conflict (name x) (set ds \<inter> set (days x))))"
proof -
  have eq: "fst (add_class a) =
        (case find (conflicts_with ds s e) (classes a) of
           None \<Rightarrow> None
         | Some x \<Rightarrow> Some (Conflict (name x) (set ds \<inter> set (days x))))"
    using assms by (simp add: add_class_def Let_def check_conflicts_find split: option.splits)
  have "(\<exists>other shared. fst (add_class a) = Some (Conflict other shared))
           \<longleftrightarrow> find (conflicts_with ds s e) (classes a) \<noteq> None"
    unfolding eq by (auto split: option.splits)
  also have "\<dots> \<longleftrightarrow> (\<exists>x \<in> set (classes a). conflicts_with ds s e x)"
    by (auto simp: find_None_iff)
  finally show ?thesis
    using eq by simp
qed

theorem add_class_conflict_witness:
  "strip (name_entry ex_physics_form) \<noteq> []
   \<and> parse_time (strip (start_entry ex_physics_form)) = Inr (19 / 2)
   \<and> parse_time (strip (end_entry ex_physics_form)) = Inr (21 / 2)
   \<and> (19 / 2 :: rat) < 21 / 2
   \<and> selected_days (day_vars ex_physics_form) = [''Mon'']
   \<and> conflicts_with [''Mon''] (19 / 2) (21 / 2) ex_math
   \<and> fst (add_class ex_physics_form) = Some (Conflict ''Math'' {''Mon''})"
proof -
  have nm: "strip (name_entry ex_physics_form) \<noteq> []"
    by code_simp
  have s: "parse_time (strip (start_entry ex_physics_form)) = Inr (19 / 2)"
    by code_simp
  have e: "parse_time (strip (end_entry ex_physics_form)) = Inr (21 / 2)"
    by code_simp
  have lt: "(19 / 2 :: rat) < 21 / 2"
    by simp
  have ds: "selected_days (day_vars ex_physics_form) = [''Mon'']"
    by code_simp
  have cf: "conflicts_with [''Mon''] (19 / 2) (21 / 2) ex_math"
    by code_simp
  have cls: "classes ex_physics_form = [ex_math]"
    by (simp add: ex_physics_form_def)
  have shared: "set [''Mon''] \<inter> set (days ex_math) = {''Mon''}"
    by code_simp
  have "fst (add_class ex_physics_form) = Some (Conflict ''Math'' {''Mon''})"
    using add_class_conflict [OF nm s e lt ds] cf cls shared
    by (simp add: ex_math_def)
  with nm s e lt ds cf show ?thesis
    by blast
qed

section \<open>The selection\<close>

text \<open>
  C3. For each day of \<open>DAYS\<close>, in that order and independently, \<open>select_classes\<close> keeps
  the stored classes of the day, sorts them by end time (ascending, a stable sort: classes
  with the same end keep their insertion order) and accepts a candidate exactly when its
  start is at least \<open>lastEnd\<close>, which starts at \<open>- 1\<close> and becomes the end of each accepted
  candidate: the value computed by the loops and the final sort is \<open>spec_select\<close>. For
  three Monday classes with ends 10:00, 10:30, 11:00 and starts 09:00, 09:15, 10:00 the
  result is the first and the third.
\<close>

theorem select_per_day_greedy:
  "select_nonoverlapping cs = Inr (spec_select cs)
   \<and> (\<forall>d. sorted (map end_time (spec_day_sorted cs d)))
   \<and> (\<forall>d k. filter (\<lambda>c. end_time c = k) (spec_day_sorted cs d)
             = filter (\<lambda>c. end_time c = k) (filter (\<lambda>c. d \<in> set (days c)) cs))
   \<and> select_nonoverlapping [class_1, class_2, class_3] = Inr [(''Mon'', class_1), (''Mon'', class_3)]"
proof -
  have ex: "select_nonoverlapping [class_1, class_2, class_3]
      = Inr [(''Mon'', class_1), (''Mon'', class_3)]"
    by code_simp
  have "select_nonoverlapping cs = Inr (spec_select cs)"
    by (rule select_nonoverlapping_spec)
  moreover have "\<forall>d. sorted (map end_time (spec_day_sorted cs d))"
    by (simp add: spec_day_sorted_def)
  moreover have "\<forall>d k. filter (\<lambda>c. end_time c = k) (spec_day_sorted cs d)
             = filter (\<lambda>c. end_time c = k) (filter (\<lambda>c. d \<in> set (days c)) cs)"
    unfolding spec_day_sorted_def by (simp only: sort_key_stable) simp
  ultimately show ?thesis
    using ex by blast
qed

text \<open>
  C8. The sequence \<open>select_classes\<close> displays is the selection re-sorted on the key
  (index of the day in \<open>DAYS\<close>, start): it is sorted on that key, so of two positions the
  earlier one has the earlier day, or the same day and a start that is not later.
\<close>

theorem select_sorted_by_day_then_start:
  "\<exists>sel. select_nonoverlapping cs = Inr sel
     \<and> sel = sort_key selected_key (select_loop cs)
     \<and> sorted (map selected_key sel)
     \<and> (\<forall>i j. i < j \<and> j < length sel \<longrightarrow>
           fst (selected_key (sel ! i)) < fst (selected_key (sel ! j))
           \<or> fst (sel ! i) = fst (sel ! j) \<and> start (snd (sel ! i)) \<le> start (snd (sel ! j)))"
proof -
  let ?sel = "sort_key selected_key (select_loop cs)"
  have srt: "sorted (map selected_key ?sel)"
    by simp
  have pairs: "fst (selected_key (?sel ! i)) < fst (selected_key (?sel ! j))
      \<or> fst (?sel ! i) = fst (?sel ! j) \<and> start (snd (?sel ! i)) \<le> start (snd (?sel ! j))"
    if "i < j" "j < length ?sel" for i j
  proof -
    from that have "map selected_key ?sel ! i \<le> map selected_key ?sel ! j"
      using srt by (intro sorted_nth_mono) simp_all
    with that have le: "selected_key (?sel ! i) \<le> selected_key (?sel ! j)"
      by simp
    from that have "?sel ! i \<in> set (select_loop cs)" "?sel ! j \<in> set (select_loop cs)"
      by (metis nth_mem set_sort less_trans)+
    then have "fst (?sel ! i) \<in> set DAYS" "fst (?sel ! j) \<in> set DAYS"
      by (simp_all add: select_loop_days)
    then have "fst (selected_key (?sel ! i)) = fst (selected_key (?sel ! j))
        \<Longrightarrow> fst (?sel ! i) = fst (?sel ! j)"
      by (simp add: selected_key_def same_index_same_day)
    with le show ?thesis
      unfolding key_le_iff by blast
  qed
  show ?thesis
    using select_nonoverlapping_eq [of cs] srt pairs by blast
qed

theorem select_sorted_by_day_then_start_witness:
  "select_nonoverlapping [ex_math, ex_physics]
     = Inr [(''Mon'', ex_math), (''Mon'', ex_physics), (''Tue'', ex_physics),
            (''Wed'', ex_math), (''Fri'', ex_math)]
   \<and> sorted (map selected_key [(''Mon'', ex_math), (''Mon'', ex_physics), (''Tue'', ex_physics),
            (''Wed'', ex_math), (''Fri'', ex_math)])
   \<and> (1 :: nat) < 2 \<and> 2 < length [(''Mon'', ex_math), (''Mon'', ex_physics), (''Tue'', ex_physics),
            (''Wed'', ex_math), (''Fri'', ex_math)]
   \<and> fst (selected_key (''Mon'', ex_physics)) < fst (selected_key (''Tue'', ex_physics))"
proof -
  let ?r = "[(''Mon'', ex_math), (''Mon'', ex_physics), (''Tue'', ex_physics),
            (''Wed'', ex_math), (''Fri'', ex_math)]"
  have ev: "select_nonoverlapping [ex_math, ex_physics] = Inr ?r"
    by code_simp
  have lt: "fst (selected_key (''Mon'', ex_physics)) < fst (selected_key (''Tue'', ex_physics))"
    by code_simp
  from select_sorted_by_day_then_start [of "[ex_math, ex_physics]"] ev
  have "sorted (map selected_key ?r)"
    by auto
  with ev lt show ?thesis
    by simp
qed

section \<open>The greedy selection is optimal\<close>

lemma spec_greedy_subset: "set (spec_greedy le xs) \<subseteq> set xs"
  by (induction xs arbitrary: le) auto

lemma spec_greedy_lower:
  assumes "\<forall>c\<in>set xs. start c < end_time c" and "c \<in> set (spec_greedy le xs)"
  shows "le \<le> start c"
  using assms
proof (induction xs arbitrary: le)
  case Nil
  then show ?case by simp
next
  case (Cons x xs)
  show ?case
  proof (cases "le \<le> start x")
    case True
    with Cons.prems consider "c = x" | "c \<in> set (spec_greedy (end_time x) xs)"
      by auto
    then show ?thesis
    proof cases
      case 1
      with True show ?thesis by simp
    next
      case 2
      with Cons.IH [of "end_time x"] Cons.prems(1) have "end_time x \<le> start c"
        by simp
      moreover from Cons.prems(1) have "start x < end_time x"
        by simp
      ultimately show ?thesis
        using True by linarith
    qed
  next
    case False
    with Cons show ?thesis by simp
  qed
qed

lemma spec_greedy_chain:
  assumes "\<forall>c\<in>set xs. start c < end_time c"
  shows "sorted_wrt (\<lambda>a b. end_time a \<le> start b) (spec_greedy le xs)"
  using assms
proof (induction xs arbitrary: le)
  case Nil
  then show ?case by simp
next
  case (Cons x xs)
  then show ?case
    by (auto dest: spec_greedy_lower [rotated])
qed

lemma chain_distinct:
  assumes "sorted_wrt (\<lambda>a b. end_time a \<le> start b) ys" and "\<forall>c\<in>set ys. start c < end_time c"
  shows "distinct ys"
  using assms by (induction ys) (auto, force)

lemma chain_compatible:
  assumes "sorted_wrt (\<lambda>a b. end_time a \<le> start b) ys"
  shows "compatible (set ys)"
proof -
  have "\<not> overlap a b" if "a \<in> set ys" "b \<in> set ys" "a \<noteq> b" for a b
  proof -
    from that obtain i j where ij: "i < length ys" "j < length ys" "ys ! i = a" "ys ! j = b"
      by (auto simp: in_set_conv_nth)
    with that(3) have "i < j \<or> j < i"
      by (cases i j rule: linorder_cases) auto
    then show ?thesis
    proof
      assume "i < j"
      with assms ij have "end_time a \<le> start b"
        by (auto simp: sorted_wrt_iff_nth_less)
      then show ?thesis
        by (simp add: overlap_def)
    next
      assume "j < i"
      with assms ij have "end_time b \<le> start a"
        by (auto simp: sorted_wrt_iff_nth_less)
      then show ?thesis
        by (simp add: overlap_def)
    qed
  qed
  then show ?thesis
    by (simp add: compatible_def)
qed

lemma early_starters_le_1:
  assumes comp: "compatible S" and fin: "finite S"
    and ends: "\<forall>y\<in>S. t \<le> end_time y"
  shows "card {y \<in> S. start y < t} \<le> 1"
proof -
  define E where "E = {y \<in> S. start y < t}"
  have "a = b" if "a \<in> E" "b \<in> E" for a b
  proof (rule ccontr)
    assume "a \<noteq> b"
    with comp that have "\<not> overlap a b"
      by (simp add: compatible_def E_def)
    moreover from that ends have "start a < end_time b" "start b < end_time a"
      by (fastforce simp: E_def)+
    ultimately show False
      by (simp add: overlap_def)
  qed
  then have "\<forall>a\<in>E. \<forall>b\<in>E. a = b"
    by blast
  moreover from fin have "finite E"
    by (simp add: E_def)
  ultimately have "card E \<le> Suc 0"
    by (simp only: card_le_Suc0_iff_eq)
  then show ?thesis
    by (simp add: E_def)
qed

lemma spec_greedy_optimal:
  assumes "sorted (map end_time xs)"
    and "\<forall>c\<in>set xs. start c < end_time c"
    and "S \<subseteq> set xs" and "compatible S" and "\<forall>y\<in>S. le \<le> start y"
  shows "card S \<le> length (spec_greedy le xs)"
  using assms
proof (induction xs arbitrary: le S)
  case Nil
  then show ?case by simp
next
  case (Cons x xs)
  have fin: "finite S"
    using Cons.prems(3) by (rule finite_subset) simp
  have srt: "sorted (map end_time xs)" and val: "\<forall>c\<in>set xs. start c < end_time c"
    using Cons.prems(1,2) by simp_all
  show ?case
  proof (cases "le \<le> start x")
    case True
    let ?late = "{y \<in> S. end_time x \<le> start y}"
    let ?early = "{y \<in> S. start y < end_time x}"
    have "x \<notin> ?late"
      using Cons.prems(2) by auto
    with Cons.prems(3) have sub: "?late \<subseteq> set xs"
      by auto
    have comp: "compatible ?late"
      using Cons.prems(4) by (simp add: compatible_def)
    have "card ?late \<le> length (spec_greedy (end_time x) xs)"
      using Cons.IH [OF srt val sub comp] by simp
    moreover have "\<forall>y\<in>S. end_time x \<le> end_time y"
      using Cons.prems(1,3) by auto
    then have "card ?early \<le> 1"
      using early_starters_le_1 [OF Cons.prems(4) fin] by blast
    moreover have "S = ?late \<union> ?early" "?late \<inter> ?early = {}"
      by auto
    then have "card S = card ?late + card ?early"
      using fin by (metis (no_types, lifting) card_Un_disjoint finite_Un)
    ultimately show ?thesis
      using True by simp
  next
    case False
    with Cons.prems(5) have "x \<notin> S"
      by auto
    with Cons.prems(3) have "S \<subseteq> set xs"
      by auto
    from Cons.IH [OF srt val this Cons.prems(4) Cons.prems(5)] False show ?thesis
      by simp
  qed
qed

lemma chosen_of_day:
  assumes "d \<in> set DAYS"
  shows "{c. (d, c) \<in> set (sort_key selected_key (select_loop cs))} = set (spec_day_chosen cs d)"
  using assms by (auto simp: select_loop_spec)

lemma set_spec_day_sorted: "set (spec_day_sorted cs d) = {c \<in> set cs. d \<in> set (days c)}"
  by (auto simp: spec_day_sorted_def)

text \<open>
  C1. For every day \<open>d\<close> of \<open>DAYS\<close> and every list of stored classes whose times are
  valid (\<open>0 \<le> start < end\<close>), the set of classes that \<open>select_classes\<close> chooses for \<open>d\<close>
  is a set of stored classes of that day, pairwise non-overlapping as half-open intervals,
  and no pairwise non-overlapping set of stored classes of that day is larger.
\<close>

theorem select_maximum:
  assumes valid: "\<forall>c\<in>set cs. valid_times c"
    and day: "d \<in> set DAYS"
  shows "\<exists>sel. select_nonoverlapping cs = Inr sel
     \<and> {c. (d, c) \<in> set sel} \<subseteq> {c \<in> set cs. d \<in> set (days c)}
     \<and> compatible {c. (d, c) \<in> set sel}
     \<and> (\<forall>S. S \<subseteq> {c \<in> set cs. d \<in> set (days c)} \<and> compatible S
            \<longrightarrow> card S \<le> card {c. (d, c) \<in> set sel})"
proof -
  let ?xs = "spec_day_sorted cs d"
  let ?ch = "spec_day_chosen cs d"
  have val: "\<forall>c\<in>set ?xs. start c < end_time c"
    using valid by (simp add: set_spec_day_sorted valid_times_def)
  have sub: "set ?ch \<subseteq> {c \<in> set cs. d \<in> set (days c)}"
    using spec_greedy_subset [of "- 1" ?xs]
    by (simp add: spec_day_chosen_def set_spec_day_sorted)
  have chain: "sorted_wrt (\<lambda>a b. end_time a \<le> start b) ?ch"
    unfolding spec_day_chosen_def using val by (rule spec_greedy_chain)
  have comp: "compatible (set ?ch)"
    using chain by (rule chain_compatible)
  have "distinct ?ch"
    using chain val sub spec_greedy_subset [of "- 1" ?xs]
    by (intro chain_distinct) (auto simp: spec_day_chosen_def)
  then have card: "card (set ?ch) = length ?ch"
    by (rule distinct_card)
  have best: "card S \<le> card (set ?ch)"
    if "S \<subseteq> {c \<in> set cs. d \<in> set (days c)}" "compatible S" for S
  proof -
    have "sorted (map end_time ?xs)"
      by (simp add: spec_day_sorted_def)
    moreover from that(1) have "S \<subseteq> set ?xs"
      by (simp add: set_spec_day_sorted)
    moreover from that(1) valid have "\<forall>y\<in>S. - 1 \<le> start y"
      by (fastforce simp: valid_times_def)
    ultimately have "card S \<le> length (spec_greedy (- 1) ?xs)"
      using val that(2) by (intro spec_greedy_optimal)
    with card show ?thesis
      by (simp add: spec_day_chosen_def)
  qed
  let ?sel = "sort_key selected_key (select_loop cs)"
  have ch: "{c. (d, c) \<in> set ?sel} = set ?ch"
    using day by (rule chosen_of_day)
  have "select_nonoverlapping cs = Inr ?sel"
    by (rule select_nonoverlapping_eq)
  moreover have "{c. (d, c) \<in> set ?sel} \<subseteq> {c \<in> set cs. d \<in> set (days c)}"
    unfolding ch by (rule sub)
  moreover have "compatible {c. (d, c) \<in> set ?sel}"
    unfolding ch by (rule comp)
  moreover have "\<forall>S. S \<subseteq> {c \<in> set cs. d \<in> set (days c)} \<and> compatible S
            \<longrightarrow> card S \<le> card {c. (d, c) \<in> set ?sel}"
    unfolding ch using best by blast
  ultimately show ?thesis
    by blast
qed

theorem select_maximum_witness:
  "valid_times class_1 \<and> valid_times class_2 \<and> valid_times class_3
   \<and> ''Mon'' \<in> set DAYS
   \<and> select_nonoverlapping [class_1, class_2, class_3]
       = Inr [(''Mon'', class_1), (''Mon'', class_3)]
   \<and> {class_2} \<subseteq> {c \<in> set [class_1, class_2, class_3]. ''Mon'' \<in> set (days c)}
   \<and> compatible {class_2}
   \<and> compatible {c. (''Mon'', c) \<in> set [(''Mon'', class_1), (''Mon'', class_3)]}
   \<and> card {class_2} \<le> card {c. (''Mon'', c) \<in> set [(''Mon'', class_1), (''Mon'', class_3)]}"
proof -
  have v: "valid_times class_1" "valid_times class_2" "valid_times class_3"
    by (simp_all add: valid_times_def class_1_def class_2_def class_3_def)
  then have valid: "\<forall>c\<in>set [class_1, class_2, class_3]. valid_times c"
    by simp
  have day: "''Mon'' \<in> set DAYS"
    by (simp add: DAYS_def)
  have ev: "select_nonoverlapping [class_1, class_2, class_3]
      = Inr [(''Mon'', class_1), (''Mon'', class_3)]"
    by code_simp
  have sub: "{class_2} \<subseteq> {c \<in> set [class_1, class_2, class_3]. ''Mon'' \<in> set (days c)}"
    by (simp add: class_2_def)
  have single: "compatible {class_2}"
    by (simp add: compatible_def)
  from select_maximum [OF valid day] ev
  have "compatible {c. (''Mon'', c) \<in> set [(''Mon'', class_1), (''Mon'', class_3)]}"
    and "\<forall>S. S \<subseteq> {c \<in> set [class_1, class_2, class_3]. ''Mon'' \<in> set (days c)} \<and> compatible S
           \<longrightarrow> card S \<le> card {c. (''Mon'', c) \<in> set [(''Mon'', class_1), (''Mon'', class_3)]}"
    by auto
  with sub single v day ev show ?thesis
    by blast
qed

section \<open>Rounding to binary64\<close>

text \<open>
  \<open>ilog2\<close> is the binary exponent, so the scaled significand lies in \<open>[2^52, 2^53)\<close>, and
  rounding moves a value by at most half a unit in the last place: by at most
  \<open>\<bar>x\<bar> / 2^53\<close>.
\<close>

lemma two_power_le_of_int:
  fixes k :: int
  assumes "2 ^ n \<le> k"
  shows "(2 :: rat) ^ n \<le> of_int k"
proof -
  from assms have "(of_int (2 ^ n) :: rat) \<le> of_int k"
    by (simp only: of_int_le_iff)
  then show ?thesis by simp
qed

lemma of_int_less_two_power:
  fixes k :: int
  assumes "k < 2 ^ n"
  shows "(of_int k :: rat) + 1 \<le> 2 ^ n"
proof -
  from assms have "k + 1 \<le> 2 ^ n" by simp
  then have "(of_int (k + 1) :: rat) \<le> of_int (2 ^ n)"
    by (simp only: of_int_le_iff)
  then show ?thesis by simp
qed

lemma ilog2_bounds:
  assumes "0 < x"
  shows "2 powi (ilog2 x) \<le> x \<and> x < 2 powi (ilog2 x + 1)"
proof (cases "1 \<le> x")
  case True
  define b where "b = bitlen \<lfloor>x\<rfloor>"
  from True have pos: "0 < \<lfloor>x\<rfloor>" by simp
  from bitlen_bounds [OF pos]
  have lo: "2 ^ nat (b - 1) \<le> \<lfloor>x\<rfloor>" and hi: "\<lfloor>x\<rfloor> < 2 ^ nat b"
    by (simp_all add: b_def)
  from pos have b1: "1 \<le> b"
    unfolding b_def by (simp add: bitlen_alt_def)
  have "(2 :: rat) ^ nat (b - 1) \<le> of_int \<lfloor>x\<rfloor>"
    using lo by (rule two_power_le_of_int)
  also have "\<dots> \<le> x" by simp
  finally have l: "(2 :: rat) powi (b - 1) \<le> x"
    using b1 by (simp add: power_int_def)
  have "x < of_int \<lfloor>x\<rfloor> + 1" by linarith
  also have "\<dots> \<le> 2 ^ nat b"
    using hi by (rule of_int_less_two_power)
  finally have u: "x < (2 :: rat) powi (b - 1 + 1)"
    using b1 by (simp add: power_int_def)
  from True l u show ?thesis
    by (simp add: ilog2_def b_def)
next
  case False
  define n where "n = \<lceil>1 / x\<rceil>"
  define b where "b = bitlen (n - 1)"
  from False assms have inv: "1 < 1 / x"
    by (simp add: field_simps)
  then have n2: "2 \<le> n"
    unfolding n_def by (simp add: le_ceiling_iff)
  then have pos: "0 < n - 1" by simp
  from bitlen_bounds [OF pos]
  have lo: "2 ^ nat (b - 1) \<le> n - 1" and hi: "n - 1 < 2 ^ nat b"
    by (simp_all add: b_def)
  from pos have b1: "1 \<le> b"
    unfolding b_def by (simp add: bitlen_alt_def)
  have "1 / x \<le> of_int n"
    by (simp add: n_def)
  also have "\<dots> = of_int (n - 1) + 1" by simp
  also have "\<dots> \<le> 2 ^ nat b"
    using hi by (rule of_int_less_two_power)
  finally have "1 / 2 ^ nat b \<le> x"
    using assms by (simp add: field_simps)
  then have l: "(2 :: rat) powi (- b) \<le> x"
    using b1 by (simp add: power_int_def field_simps)
  have "(2 :: rat) ^ nat (b - 1) \<le> of_int (n - 1)"
    using lo by (rule two_power_le_of_int)
  also have "\<dots> < 1 / x"
    unfolding n_def using ceiling_correct [of "1 / x"] by simp
  finally have "x < 1 / 2 ^ nat (b - 1)"
    using assms by (simp add: field_simps)
  moreover have "(2 :: rat) powi (- b + 1) = inverse (2 powi (b - 1))"
    using power_int_minus [of "2 :: rat" "b - 1"] by simp
  moreover have "(2 :: rat) powi (b - 1) = 2 ^ nat (b - 1)"
    using b1 by (simp add: power_int_def)
  ultimately have u: "x < (2 :: rat) powi (- b + 1)"
    by (simp add: inverse_eq_divide)
  from False l u show ?thesis
    by (simp add: ilog2_def b_def n_def)
qed

lemma round_half_even_error: "\<bar>of_int (round_half_even m) - m\<bar> \<le> 1 / 2"
proof -
  have "of_int \<lfloor>m\<rfloor> \<le> m" "m < of_int \<lfloor>m\<rfloor> + 1"
    by linarith+
  then show ?thesis
    by (auto simp: round_half_even_def Let_def)
qed

lemma round_double_error: "\<bar>round_double x - x\<bar> \<le> \<bar>x\<bar> / 2 ^ 53"
proof (cases "x = 0")
  case True
  then show ?thesis by (simp add: round_double_def)
next
  case False
  define e where "e = ilog2 \<bar>x\<bar> - 52"
  define p :: rat where "p = 2 powi e"
  define m where "m = \<bar>x\<bar> / p"
  have p: "0 < p" by (simp add: p_def)
  define sg where "sg = sgn x"
  have sg: "\<bar>sg\<bar> = 1"
    using False by (simp add: sg_def abs_sgn_eq)
  have rd: "round_double x = sg * of_int (round_half_even m) * p"
    using False by (simp add: round_double_def Let_def e_def p_def m_def sg_def)
  have x: "x = sg * m * p"
    using p by (simp add: m_def sg_def sgn_if)
  have "round_double x - x = sg * p * (of_int (round_half_even m) - m)"
    unfolding rd by (subst x) (simp add: algebra_simps)
  then have "\<bar>round_double x - x\<bar> = p * \<bar>of_int (round_half_even m) - m\<bar>"
    using sg p by (simp add: abs_mult)
  also have "\<dots> \<le> p * (1 / 2)"
    using p round_half_even_error [of m] by (intro mult_left_mono) simp_all
  finally have 1: "\<bar>round_double x - x\<bar> \<le> p / 2" by simp
  have "p = 2 powi (ilog2 \<bar>x\<bar>) / 2 ^ 52"
    by (simp add: p_def e_def power_int_diff)
  also have "\<dots> \<le> \<bar>x\<bar> / 2 ^ 52"
    using ilog2_bounds [of "\<bar>x\<bar>"] False by (simp add: divide_right_mono)
  finally have "p / 2 \<le> \<bar>x\<bar> / 2 ^ 53" by simp
  with 1 show ?thesis by linarith
qed

lemma significand_range:
  assumes "x \<noteq> 0"
  shows "2 ^ 52 \<le> \<bar>x\<bar> / 2 powi (ilog2 \<bar>x\<bar> - 52) \<and> \<bar>x\<bar> / 2 powi (ilog2 \<bar>x\<bar> - 52) < 2 ^ 53"
proof -
  define k where "k = ilog2 \<bar>x\<bar>"
  have b: "2 powi k \<le> \<bar>x\<bar>" "\<bar>x\<bar> < 2 powi (k + 1)"
    using ilog2_bounds [of "\<bar>x\<bar>"] assms by (simp_all add: k_def)
  have p: "(2 :: rat) powi (k - 52) = 2 powi k / 2 ^ 52"
    by (simp add: power_int_diff)
  have q: "(2 :: rat) powi (k + 1) = 2 powi k * 2"
    by (simp add: power_int_add)
  have pos: "0 < (2 :: rat) powi k" by simp
  show ?thesis
    unfolding k_def [symmetric] p using b pos unfolding q
    by (simp add: field_simps)
qed

section \<open>What \<open>parse_time\<close> accepts and returns\<close>

lemma digit_facts:
  assumes "is_digit c"
  shows "0 \<le> digit_val c" "digit_val c \<le> 9" "c \<noteq> CHR '':''"
    "c \<in> set ''01'' \<longleftrightarrow> digit_val c \<le> 1"
    "c = CHR ''2'' \<longleftrightarrow> digit_val c = 2"
    "c \<in> set ''0123'' \<longleftrightarrow> digit_val c \<le> 3"
    "c \<in> set ''012345'' \<longleftrightarrow> digit_val c \<le> 5"
  using assms by (auto simp: is_digit_def digit_val_def)

lemma digit_subsets:
  "c \<in> set ''01'' \<Longrightarrow> is_digit c"
  "c \<in> set ''0123'' \<Longrightarrow> is_digit c"
  "c \<in> set ''012345'' \<Longrightarrow> is_digit c"
  "is_digit (CHR ''2'')" "\<not> is_digit (CHR '':'')"
  by (auto simp: is_digit_def)

lemma match_minute_Some:
  "match_minute r = Some ms \<longleftrightarrow>
     (\<exists>m1 m2 r'. r = CHR '':'' # m1 # m2 # r' \<and> m1 \<in> set ''012345'' \<and> is_digit m2
        \<and> at_end r' \<and> ms = [m1, m2])"
  by (auto simp: match_minute_def split: list.splits if_splits)

lemma match_minute_hhmm:
  assumes "is_digit m1" "is_digit m2" "10 * digit_val m1 + digit_val m2 \<le> 59" "at_end r'"
  shows "match_minute (CHR '':'' # m1 # m2 # r') = Some [m1, m2]"
proof -
  from assms(2,3) digit_facts(1) [OF assms(2)] have "digit_val m1 \<le> 5"
    by linarith
  with assms(1) have "m1 \<in> set ''012345''"
    by (simp only: digit_facts(7))
  with assms(2,4) show ?thesis
    by (simp add: match_minute_Some)
qed

lemma match_minute_not_colon: "c \<noteq> CHR '':'' \<Longrightarrow> match_minute (c # r) = None"
  by (simp add: match_minute_def split: list.splits)

lemma match_time_two_digit_hour:
  assumes h: "is_digit h1" "is_digit h2" "10 * digit_val h1 + digit_val h2 \<le> 23"
    and m: "match_minute r = Some ms"
  shows "match_time (h1 # h2 # r) = Some ([h1, h2], ms)"
proof (cases "h1 \<in> set ''01''")
  case True
  with h(2) m show ?thesis
    by (simp add: match_time_def match_hour_01d_def)
next
  case False
  with digit_facts(4) [OF h(1)] have "\<not> digit_val h1 \<le> 1"
    by blast
  with h(3) digit_facts(1) [OF h(2)] have "digit_val h1 = 2" "digit_val h2 \<le> 3"
    by linarith+
  with h(1,2) have h12: "h1 = CHR ''2''" "h2 \<in> set ''0123''"
    by (simp_all only: digit_facts(5,6))
  have 1: "match_hour_01d (h1 # h2 # r) = None"
    using False by (simp add: match_hour_01d_def)
  have 2: "match_hour_d (h1 # h2 # r) = None"
    using digit_facts(3) [OF h(2)] by (simp add: match_hour_d_def match_minute_not_colon)
  have 3: "match_hour_2d (h1 # h2 # r) = Some ([h1, h2], ms)"
    using h12 m by (simp add: match_hour_2d_def)
  show ?thesis
    by (simp add: match_time_def 1 2 3)
qed

lemma match_time_one_digit_hour:
  assumes h: "is_digit h1" and m: "match_minute (CHR '':'' # r) = Some ms"
  shows "match_time (h1 # CHR '':'' # r) = Some ([h1], ms)"
proof -
  have 1: "match_hour_01d (h1 # CHR '':'' # r) = None"
    by (simp add: match_hour_01d_def digit_subsets)
  have 2: "match_hour_d (h1 # CHR '':'' # r) = Some ([h1], ms)"
    using h m by (simp add: match_hour_d_def)
  show ?thesis
    by (simp add: match_time_def 1 2)
qed

lemma int_of_digits_simps:
  "int_of_digits [a] = digit_val a" "int_of_digits [a, b] = 10 * digit_val a + digit_val b"
  by (simp_all add: int_of_digits_def)

lemma hhmm_cases:
  assumes "hhmm hs ms"
  obtains h1 m1 m2 where "hs = [h1]" "ms = [m1, m2]" "is_digit h1" "is_digit m1" "is_digit m2"
      "10 * digit_val m1 + digit_val m2 \<le> 59"
  | h1 h2 m1 m2 where "hs = [h1, h2]" "ms = [m1, m2]" "is_digit h1" "is_digit h2"
      "10 * digit_val h1 + digit_val h2 \<le> 23" "is_digit m1" "is_digit m2"
      "10 * digit_val m1 + digit_val m2 \<le> 59"
proof -
  from assms obtain m1 m2 where ms: "ms = [m1, m2]"
    by (auto simp: hhmm_def length_Suc_conv numeral_2_eq_2)
  from assms consider h1 where "hs = [h1]" | h1 h2 where "hs = [h1, h2]"
    by (auto simp: hhmm_def length_Suc_conv numeral_2_eq_2)
  then show thesis
  proof cases
    case 1
    with assms ms that(1) show ?thesis
      by (simp add: hhmm_def int_of_digits_simps)
  next
    case 2
    with assms ms that(2) show ?thesis
      by (simp add: hhmm_def int_of_digits_simps)
  qed
qed

lemma match_time_hhmm:
  assumes "hhmm hs ms" "at_end r'"
  shows "match_time (hs @ '':'' @ ms @ r') = Some (hs, ms)"
  using assms(1)
proof (cases rule: hhmm_cases)
  case (1 h1 m1 m2)
  then show ?thesis
    using assms(2) by (simp add: match_time_one_digit_hour match_minute_hhmm)
next
  case (2 h1 h2 m1 m2)
  then show ?thesis
    using assms(2) by (simp add: match_time_two_digit_hour match_minute_hhmm)
qed

lemma match_time_Some:
  assumes "match_time s = Some (g1, g2)"
  shows "hhmm g1 g2 \<and> (\<exists>r'. at_end r' \<and> s = g1 @ '':'' @ g2 @ r')"
proof -
  from assms consider "match_hour_01d s = Some (g1, g2)" | "match_hour_d s = Some (g1, g2)"
    | "match_hour_2d s = Some (g1, g2)"
    by (auto simp: match_time_def split: option.splits)
  then show ?thesis
  proof cases
    case 1
    then obtain h1 h2 r where s: "s = h1 # h2 # r" "h1 \<in> set ''01''" "is_digit h2"
        "g1 = [h1, h2]" "match_minute r = Some g2"
      by (auto simp: match_hour_01d_def split: list.splits if_splits)
    from s(5) obtain m1 m2 r' where r: "r = CHR '':'' # m1 # m2 # r'" "m1 \<in> set ''012345''"
        "is_digit m2" "at_end r'" "g2 = [m1, m2]"
      by (auto simp: match_minute_Some)
    have d1: "is_digit h1" "is_digit m1"
      using s(2) r(2) by (simp_all only: digit_subsets)
    have "digit_val h1 \<le> 1" "digit_val m1 \<le> 5"
      using s(2) r(2) d1 by (simp_all only: digit_facts(4,7))
    with digit_facts(2) [OF s(3)] digit_facts(2) [OF r(3)] d1 s r show ?thesis
      by (simp add: hhmm_def int_of_digits_simps)
  next
    case 2
    then obtain h1 r where s: "s = h1 # r" "is_digit h1" "g1 = [h1]" "match_minute r = Some g2"
      by (auto simp: match_hour_d_def split: list.splits if_splits)
    from s(4) obtain m1 m2 r' where r: "r = CHR '':'' # m1 # m2 # r'" "m1 \<in> set ''012345''"
        "is_digit m2" "at_end r'" "g2 = [m1, m2]"
      by (auto simp: match_minute_Some)
    have d1: "is_digit m1"
      using r(2) by (simp only: digit_subsets)
    have "digit_val m1 \<le> 5"
      using r(2) d1 by (simp only: digit_facts(7))
    with digit_facts(2) [OF s(2)] digit_facts(2) [OF r(3)] d1 s r show ?thesis
      by (simp add: hhmm_def int_of_digits_simps)
  next
    case 3
    then obtain h1 h2 r where s: "s = h1 # h2 # r" "h1 = CHR ''2''" "h2 \<in> set ''0123''"
        "g1 = [h1, h2]" "match_minute r = Some g2"
      by (auto simp: match_hour_2d_def split: list.splits if_splits)
    from s(5) obtain m1 m2 r' where r: "r = CHR '':'' # m1 # m2 # r'" "m1 \<in> set ''012345''"
        "is_digit m2" "at_end r'" "g2 = [m1, m2]"
      by (auto simp: match_minute_Some)
    have d1: "is_digit h1" "is_digit h2" "is_digit m1"
      using s(2,3) r(2) by (simp_all only: digit_subsets)
    have "digit_val h1 = 2" "digit_val h2 \<le> 3" "digit_val m1 \<le> 5"
      using s(2,3) r(2) d1 by (simp_all only: digit_facts(5,6,7))
    with digit_facts(2) [OF r(3)] d1 s r show ?thesis
      by (simp add: hhmm_def int_of_digits_simps)
  qed
qed

lemma hhmm_ranges:
  assumes "hhmm hs ms"
  shows "0 \<le> int_of_digits hs \<and> int_of_digits hs \<le> 23
    \<and> 0 \<le> int_of_digits ms \<and> int_of_digits ms \<le> 59"
  using assms
proof (cases rule: hhmm_cases)
  case (1 h1 m1 m2)
  with digit_facts(1,2) [of h1] digit_facts(1) [of m1] digit_facts(1) [of m2] show ?thesis
    by (simp add: int_of_digits_simps)
next
  case (2 h1 h2 m1 m2)
  with digit_facts(1) [of h1] digit_facts(1) [of h2] digit_facts(1) [of m1]
    digit_facts(1) [of m2] show ?thesis
    by (simp add: int_of_digits_simps)
qed

lemma parse_time_hhmm:
  assumes "hhmm hs ms" "at_end r'"
  shows "parse_time (hs @ '':'' @ ms @ r') = Inr (time_value (int_of_digits hs) (int_of_digits ms))"
  using match_time_hhmm [OF assms] by (simp add: parse_time_def time_value_def)

lemma parse_time_Inr:
  assumes "parse_time s = Inr t"
  obtains hs ms r' where "hhmm hs ms" "at_end r'" "s = hs @ '':'' @ ms @ r'"
    "t = time_value (int_of_digits hs) (int_of_digits ms)"
proof -
  from assms obtain g1 g2 where m: "match_time s = Some (g1, g2)"
    and t: "t = time_value (int_of_digits g1) (int_of_digits g2)"
    by (auto simp: parse_time_def time_value_def Let_def split: option.splits)
  from match_time_Some [OF m] t that show thesis
    by blast
qed

lemma time_value_bounds:
  assumes "0 \<le> h" "h \<le> 23" "0 \<le> m" "m \<le> 59"
  shows "0 \<le> time_value h m \<and> time_value h m < 24
    \<and> \<bar>time_value h m - (of_int h + of_int m / 60)\<bar> \<le> 1 / 2 ^ 48"
proof -
  define r :: rat where "r = of_int m / 60"
  define q where "q = int_truediv m 60"
  define x :: rat where "x = of_int h + q"
  define t where "t = time_value h m"
  have r: "0 \<le> r" "r \<le> 59 / 60"
    using assms(3,4) by (simp_all add: r_def)
  have h: "(0 :: rat) \<le> of_int h" "(of_int h :: rat) \<le> 23"
    using assms(1,2) by simp_all
  have "\<bar>q - r\<bar> \<le> \<bar>r\<bar> / 2 ^ 53"
    using round_double_error [of r] by (simp add: q_def r_def int_truediv_def)
  with r have q: "\<bar>q - r\<bar> \<le> r / 9007199254740992"
    by simp
  have "\<bar>t - x\<bar> \<le> \<bar>x\<bar> / 2 ^ 53"
    using round_double_error [of x]
    by (simp add: t_def time_value_def float_add_def x_def q_def)
  moreover from q r h have x: "0 \<le> x" "x \<le> 23 + 59 / 60 + 1 / 9007199254740992"
    unfolding x_def by linarith+
  ultimately have t: "\<bar>t - x\<bar> \<le> x / 9007199254740992"
    by simp
  from t x have "0 \<le> t" "t < 24"
    by linarith+
  moreover have "\<bar>t - (of_int h + r)\<bar> \<le> 1 / 281474976710656"
  proof -
    from t have "t - x \<le> x / 9007199254740992" "x - t \<le> x / 9007199254740992"
      by (simp_all only: abs_le_iff) linarith+
    moreover from q have "q - r \<le> r / 9007199254740992" "r - q \<le> r / 9007199254740992"
      by (simp_all only: abs_le_iff) linarith+
    ultimately have "t - (of_int h + r) \<le> 1 / 281474976710656"
      "- (t - (of_int h + r)) \<le> 1 / 281474976710656"
      using x r x_def by linarith+
    then show ?thesis
      by (simp only: abs_le_iff)
  qed
  ultimately show ?thesis
    by (simp add: t_def r_def)
qed

lemma conforms_hhmm_iff: "conforms_hhmm s \<longleftrightarrow> (\<exists>hs ms. hhmm hs ms \<and> s = hs @ '':'' @ ms)"
proof
  assume "conforms_hhmm s"
  then show "\<exists>hs ms. hhmm hs ms \<and> s = hs @ '':'' @ ms"
    unfolding conforms_hhmm_def by blast
next
  assume "\<exists>hs ms. hhmm hs ms \<and> s = hs @ '':'' @ ms"
  then obtain hs ms where h: "hhmm hs ms" and s: "s = hs @ '':'' @ ms"
    by blast
  from h have "length hs \<in> {1, 2}"
    by (auto simp: hhmm_def)
  moreover have "take (length hs) s = hs" "drop (Suc (length hs)) s = ms"
    by (simp_all add: s)
  ultimately show "conforms_hhmm s"
    unfolding conforms_hhmm_def using h s by (metis (no_types, lifting))
qed

lemma parse_time_error: "parse_time s = Inl err \<Longrightarrow> err = FormatError"
  by (auto simp: parse_time_def Let_def split: option.splits)

lemma parse_time_succeeds_iff:
  "(\<exists>t. parse_time s = Inr t) \<longleftrightarrow>
     conforms_hhmm s \<or> (\<exists>s'. conforms_hhmm s' \<and> s = s' @ [CHR 0x0A])"
proof
  assume "\<exists>t. parse_time s = Inr t"
  then obtain t where "parse_time s = Inr t" ..
  then obtain hs ms r' where h: "hhmm hs ms" "at_end r'" "s = hs @ '':'' @ ms @ r'"
    by (rule parse_time_Inr)
  from h(2) consider "r' = []" | "r' = [CHR 0x0A]"
    by (auto simp: at_end_def)
  then show "conforms_hhmm s \<or> (\<exists>s'. conforms_hhmm s' \<and> s = s' @ [CHR 0x0A])"
  proof cases
    case 1
    with h have "conforms_hhmm s"
      by (auto simp: conforms_hhmm_iff)
    then show ?thesis ..
  next
    case 2
    with h have "conforms_hhmm (hs @ '':'' @ ms) \<and> s = (hs @ '':'' @ ms) @ [CHR 0x0A]"
      by (auto simp: conforms_hhmm_iff)
    then show ?thesis by blast
  qed
next
  assume "conforms_hhmm s \<or> (\<exists>s'. conforms_hhmm s' \<and> s = s' @ [CHR 0x0A])"
  then show "\<exists>t. parse_time s = Inr t"
  proof
    assume "conforms_hhmm s"
    then obtain hs ms where h: "hhmm hs ms" and s: "s = hs @ '':'' @ ms"
      unfolding conforms_hhmm_iff by blast
    have "at_end []"
      by (simp add: at_end_def)
    from parse_time_hhmm [OF h this] s show ?thesis
      by simp
  next
    assume "\<exists>s'. conforms_hhmm s' \<and> s = s' @ [CHR 0x0A]"
    then obtain hs ms where h: "hhmm hs ms" and s: "s = (hs @ '':'' @ ms) @ [CHR 0x0A]"
      unfolding conforms_hhmm_iff by blast
    have "at_end [CHR 0x0A]"
      by (simp add: at_end_def)
    from parse_time_hhmm [OF h this] s show ?thesis
      by simp
  qed
qed

lemma parse_time_rejects_examples:
  "parse_time ''24:00'' = Inl FormatError" "parse_time ''9:5'' = Inl FormatError"
  "parse_time ''ab:cd'' = Inl FormatError" "parse_time '''' = Inl FormatError"
  "parse_time ''1330'' = Inl FormatError" "parse_time ''13:60'' = Inl FormatError"
  "parse_time ''13:30 '' = Inl FormatError"
  by code_simp+

text \<open>
  C5. \<open>parse_time\<close> is to fail on every string that is not a 24-hour HH:MM time, extra
  characters included. It does fail on the strings of \<open>parse_time_rejects_examples\<close>, and it
  succeeds on every conforming string (\<open>parse_time_succeeds_iff\<close>), but it also succeeds on
  a conforming string followed by one newline: \<^verbatim>\<open>$\<close> matches before a final newline. The
  theorem evaluates it on "13:30" followed by a newline, which does not conform and is
  parsed to 13.5.
\<close>

theorem parse_time_accepts_trailing_newline:
  "parse_time (''13:30'' @ [CHR 0x0A]) = Inr (27 / 2)
   \<and> \<not> conforms_hhmm (''13:30'' @ [CHR 0x0A])"
  by code_simp

text \<open>
  C6. For every conforming string, with hour digits \<open>hs\<close> and minute digits \<open>ms\<close> of
  values \<open>H\<close> and \<open>M\<close>, \<open>parse_time\<close> returns \<open>H + M / 60\<close> as the source computes it on
  floats (\<open>time_value H M\<close>: the quotient and the sum are each rounded to binary64), a
  value within \<open>2^-48\<close> of the rational \<open>H + M / 60\<close>; it returns exactly 13.5 for
  "13:30" and 0 for "00:00".
\<close>

theorem parse_time_value:
  assumes "hhmm hs ms"
  shows "parse_time (hs @ '':'' @ ms) = Inr (time_value (int_of_digits hs) (int_of_digits ms))
    \<and> \<bar>time_value (int_of_digits hs) (int_of_digits ms)
         - (of_int (int_of_digits hs) + of_int (int_of_digits ms) / 60)\<bar> \<le> 1 / 2 ^ 48
    \<and> parse_time ''13:30'' = Inr (27 / 2)
    \<and> parse_time ''00:00'' = Inr 0"
proof -
  have "at_end []"
    by (simp add: at_end_def)
  from parse_time_hhmm [OF assms this]
  have "parse_time (hs @ '':'' @ ms) = Inr (time_value (int_of_digits hs) (int_of_digits ms))"
    by simp
  moreover have "\<bar>time_value (int_of_digits hs) (int_of_digits ms)
         - (of_int (int_of_digits hs) + of_int (int_of_digits ms) / 60)\<bar> \<le> 1 / 2 ^ 48"
    using hhmm_ranges [OF assms] by (intro time_value_bounds [THEN conjunct2, THEN conjunct2]) simp_all
  moreover have "parse_time ''13:30'' = Inr (27 / 2)"
    by code_simp
  moreover have "parse_time ''00:00'' = Inr 0"
    by code_simp
  ultimately show ?thesis
    by blast
qed

theorem parse_time_value_witness:
  "hhmm ''23'' ''59''
   \<and> parse_time ''23:59'' = Inr (1687677047860975 / 70368744177664)
   \<and> \<bar>1687677047860975 / 70368744177664 - (23 + 59 / 60 :: rat)\<bar> \<le> 1 / 2 ^ 48"
proof -
  have h: "hhmm ''23'' ''59''"
    by code_simp
  have v: "time_value 23 59 = 1687677047860975 / 70368744177664"
    by code_simp
  have d: "int_of_digits ''23'' = 23" "int_of_digits ''59'' = 59"
    by code_simp+
  from parse_time_value [OF h, unfolded d v] h show ?thesis
    by simp
qed

section \<open>Formatting a parsed time\<close>

text \<open>
  C7. Formatting the value parsed from a canonical zero-padded string is to give the string
  back. \<open>format_time\<close> truncates \<open>(t - hr) * 60\<close>, and for "01:01" the float product is
  just below 1: the parsed value is \<open>1144664905290001 / 2^50\<close>, and it is displayed as
  "01:00".
\<close>

theorem format_time_round_trip_fails:
  "conforms_hhmm ''01:01''
   \<and> parse_time ''01:01'' = Inr (1144664905290001 / 1125899906842624)
   \<and> format_time (1144664905290001 / 1125899906842624) = ''01:00''"
  by code_simp

section \<open>The invariant of the stored classes\<close>

lemma selected_days_subset:
  assumes "length vars \<le> length DAYS"
  shows "set (selected_days vars) \<subseteq> set DAYS"
  using assms by (auto simp: selected_days_def in_set_enumerate_eq)

lemma parse_time_is_time_of_day:
  assumes "parse_time s = Inr t"
  shows "is_time_of_day t"
proof -
  from assms obtain hs ms r' where h: "hhmm hs ms" "at_end r'"
    and t: "t = time_value (int_of_digits hs) (int_of_digits ms)"
    by (rule parse_time_Inr)
  have "at_end []"
    by (simp add: at_end_def)
  from parse_time_hhmm [OF h(1) this] t have "parse_time (hs @ '':'' @ ms) = Inr t"
    by simp
  moreover from h(1) have "conforms_hhmm (hs @ '':'' @ ms)"
    by (auto simp: conforms_hhmm_iff)
  moreover from hhmm_ranges [OF h(1)] have "0 \<le> t \<and> t < 24"
    unfolding t using time_value_bounds by blast
  ultimately show ?thesis
    unfolding is_time_of_day_def by blast
qed

lemma app_inv_valid_times:
  assumes "app_inv a" and "c \<in> set (classes a)"
  shows "valid_times c"
  using assms by (auto simp: app_inv_def list_all_iff entry_ok_def is_time_of_day_def valid_times_def)

lemma add_class_success:
  assumes "add_class a = (None, a')"
  obtains s e where "strip (name_entry a) \<noteq> []"
    "parse_time (strip (start_entry a)) = Inr s" "parse_time (strip (end_entry a)) = Inr e"
    "s < e" "selected_days (day_vars a) \<noteq> []"
    "classes a' = classes a @ [\<lparr>name = strip (name_entry a), start = s, end_time = e,
        days = selected_days (day_vars a)\<rparr>]"
    "day_vars a' = map (\<lambda>var. 0) (day_vars a)"
  using assms
  by (auto simp: add_class_def Let_def clear_inputs_def update_class_list_def
      split: if_splits sum.splits option.splits)

text \<open>
  C9. Every stored class has a non-empty name, \<open>start < end\<close>, a non-empty list of days
  drawn from \<open>DAYS\<close>, and a start and an end in \<open>[0, 24)\<close> that \<open>parse_time\<close> returns for
  a conforming HH:MM string: this holds of the initial state and is preserved by
  \<open>add_class\<close> and by \<open>select_classes\<close>.
\<close>

theorem invariant_preserved:
  "app_inv init_app
   \<and> (app_inv a \<longrightarrow> app_inv (snd (add_class a)) \<and> app_inv (snd (select_classes a)))"
proof -
  have init: "app_inv init_app"
    by (simp add: app_inv_def init_app_def)
  have add: "app_inv (snd (add_class a))" if inv: "app_inv a"
  proof (cases "fst (add_class a)")
    case None
    then have "add_class a = (None, snd (add_class a))"
      by (simp add: prod_eq_iff)
    then show ?thesis
    proof (rule add_class_success)
      fix s e
      assume nm: "strip (name_entry a) \<noteq> []"
        and s: "parse_time (strip (start_entry a)) = Inr s"
        and e: "parse_time (strip (end_entry a)) = Inr e"
        and lt: "s < e" and ds: "selected_days (day_vars a) \<noteq> []"
        and cls: "classes (snd (add_class a)) = classes a
            @ [\<lparr>name = strip (name_entry a), start = s, end_time = e,
                days = selected_days (day_vars a)\<rparr>]"
        and vars: "day_vars (snd (add_class a)) = map (\<lambda>var. 0) (day_vars a)"
      from inv have "set (selected_days (day_vars a)) \<subseteq> set DAYS"
        by (intro selected_days_subset) (simp add: app_inv_def)
      with nm lt ds parse_time_is_time_of_day [OF s] parse_time_is_time_of_day [OF e]
      have "entry_ok \<lparr>name = strip (name_entry a), start = s, end_time = e,
                days = selected_days (day_vars a)\<rparr>"
        by (simp add: entry_ok_def)
      with inv cls vars show ?thesis
        by (simp add: app_inv_def)
    qed
  next
    case (Some err)
    then have "add_class a = (Some err, snd (add_class a))"
      by (simp add: prod_eq_iff)
    then have "snd (add_class a) = a"
      by (auto simp: add_class_def Let_def split: if_splits sum.splits option.splits)
    with inv show ?thesis
      by simp
  qed
  have sel: "app_inv (snd (select_classes a))" if "app_inv a"
    using that by (simp add: select_classes_def app_inv_def split: sum.splits)
  from init add sel show ?thesis
    by blast
qed

theorem invariant_preserved_witness:
  "app_inv ex_math_form
   \<and> classes (snd (add_class ex_math_form)) = [ex_math]
   \<and> app_inv (snd (add_class ex_math_form))
   \<and> entry_ok ex_math"
proof -
  have inv: "app_inv ex_math_form"
    by (simp add: app_inv_def ex_math_form_def init_app_def DAYS_def)
  have cls: "classes (snd (add_class ex_math_form)) = [ex_math]"
    by code_simp
  from invariant_preserved [of ex_math_form] inv
  have after: "app_inv (snd (add_class ex_math_form))"
    by blast
  with cls have "entry_ok ex_math"
    by (simp add: app_inv_def)
  with inv cls after show ?thesis
    by blast
qed

end
